theory Spec2Isabelle
  imports Complex_Main "HOL-Library.Char_ord" "HOL-Library.List_Lexorder"
    "HOL-Library.Product_Lexorder" "HOL-Library.AList"
begin

section \<open>Python values, exceptions and builtins\<close>

text \<open>
  The exceptions raised by the modelled code paths.  \<open>ValidationError\<close> is pydantic's,
  \<open>ParserError\<close> is what \<open>pd.read_csv\<close> raises on an unreadable file, the others are
  Python builtins.  The repository defines no exception classes of its own.
\<close>

datatype error =
    RuntimeError
  | FileNotFoundError
  | KeyError string
  | ValueError
  | ValidationError
  | ParserError

text \<open>
  \<open>range(start, stop, step)\<close>: a zero step raises \<open>ValueError\<close>; a positive step counts
  up while the index is below \<open>stop\<close>, a negative step counts down while it is above.
\<close>

function range_up :: "int \<Rightarrow> int \<Rightarrow> int \<Rightarrow> int list" where
  "range_up i stop step =
     (if 0 < step \<and> i < stop then i # range_up (i + step) stop step else [])"
  by pat_completeness auto
termination
  by (relation "measure (\<lambda>(i, stop, step). nat (stop - i))") auto

function range_down :: "int \<Rightarrow> int \<Rightarrow> int \<Rightarrow> int list" where
  "range_down i stop step =
     (if step < 0 \<and> stop < i then i # range_down (i + step) stop step else [])"
  by pat_completeness auto
termination
  by (relation "measure (\<lambda>(i, stop, step). nat (i - stop))") auto

definition py_range :: "int \<Rightarrow> int \<Rightarrow> int \<Rightarrow> error + int list" where
  "py_range start stop step =
     (if step = 0 then Inl ValueError
      else if 0 < step then Inr (range_up start stop step)
      else Inr (range_down start stop step))"

text \<open>
  \<open>seq[i:j]\<close> on a list: a negative bound counts from the end, and both bounds are
  clamped to the list; an empty or inverted window gives the empty list.
\<close>

definition slice_bound :: "nat \<Rightarrow> int \<Rightarrow> nat" where
  "slice_bound len k = (if k < 0 then nat (max 0 (int len + k)) else min (nat k) len)"

definition py_slice :: "'a list \<Rightarrow> int \<Rightarrow> int \<Rightarrow> 'a list" where
  "py_slice xs i j =
     (let a = slice_bound (length xs) i; b = slice_bound (length xs) j
      in take (b - a) (drop a xs))"

section \<open>utils.py: chunked\<close>

text \<open>
  \<open>chunked(seq, n)\<close> is a generator; the model is the list of groups obtained by
  consuming it (as \<open>main\<close> does with \<open>list(chunked(...))\<close>), or the exception raised
  while doing so.
\<close>

definition chunked :: "'a list \<Rightarrow> int \<Rightarrow> error + 'a list list" where
  "chunked seq n =
     (case py_range 0 (int (length seq)) n of
        Inl e \<Rightarrow> Inl e
      | Inr idx \<Rightarrow> Inr (map (\<lambda>i. py_slice seq i (i + n)) idx))"


section \<open>pandas frames\<close>

text \<open>
  A cell of a frame read by \<open>pd.read_csv\<close>: a missing value, a string or an integer.
  A \<open>DataFrame\<close> is its columns in order, each a name with the values of its rows.
  Frames are Python objects: \<open>heap\<close> maps references to the frames they hold, so
  that copying and in-place assignment can be told apart.
\<close>

datatype cell = NaN | Str string | Num int

type_synonym dataframe = "(string \<times> cell list) list"

record heap =
  next_ref :: nat
  frames :: "nat \<Rightarrow> dataframe"

definition alloc :: "dataframe \<Rightarrow> heap \<Rightarrow> nat \<times> heap" where
  "alloc df h = (next_ref h, h\<lparr>next_ref := Suc (next_ref h), frames := (frames h)(next_ref h := df)\<rparr>)"

text \<open>\<open>df.copy()\<close>: a new object with the same (deeply copied) contents.\<close>

definition df_copy :: "nat \<Rightarrow> heap \<Rightarrow> nat \<times> heap" where
  "df_copy r h = alloc (frames h r) h"

text \<open>\<open>df[c] = values\<close>: replaces column \<open>c\<close> in place, or appends it as the last column.\<close>

definition setitem :: "nat \<Rightarrow> string \<Rightarrow> cell list \<Rightarrow> heap \<Rightarrow> heap" where
  "setitem r c vs h = h\<lparr>frames := (frames h)(r := AList.update c vs (frames h r))\<rparr>"

definition columns :: "dataframe \<Rightarrow> string list" where
  "columns df = map fst df"

text \<open>\<open>df[c]\<close>: the column, or \<open>KeyError\<close>.\<close>

definition getitem :: "dataframe \<Rightarrow> string \<Rightarrow> error + cell list" where
  "getitem df c = (case map_of df c of None \<Rightarrow> Inl (KeyError c) | Some vs \<Rightarrow> Inr vs)"

definition nrows :: "dataframe \<Rightarrow> nat" where
  "nrows df = (case df of [] \<Rightarrow> 0 | (c, vs) # rest \<Rightarrow> length vs)"

text \<open>\<open>df[mask]\<close>: the rows whose mask entry is true, in every column.\<close>

definition filter_rows :: "bool list \<Rightarrow> dataframe \<Rightarrow> dataframe" where
  "filter_rows keep df = map (\<lambda>(c, vs). (c, map snd (filter fst (zip keep vs)))) df"

text \<open>\<open>str(x)\<close> of a cell; integers print in decimal.\<close>

function digits :: "nat \<Rightarrow> string" where
  "digits n = (if n < 10 then [char_of (48 + n)] else digits (n div 10) @ [char_of (48 + n mod 10)])"
  by pat_completeness auto
termination
  by (relation "measure id") auto

definition py_str :: "cell \<Rightarrow> string" where
  "py_str c = (case c of NaN \<Rightarrow> ''nan'' | Str s \<Rightarrow> s
                | Num i \<Rightarrow> (if i < 0 then CHR ''-'' # digits (nat (- i)) else digits (nat i)))"

text \<open>
  \<open>s.strip()\<close>: removes leading and trailing whitespace.  A character is a code point
  below 256; of these Python counts as whitespace the ASCII ones and U+0085 and U+00A0.
\<close>

definition is_space :: "char \<Rightarrow> bool" where
  "is_space c = (c \<in> set [CHR '' '', CHR 0x09, CHR 0x0A, CHR 0x0B, CHR 0x0C, CHR 0x0D,
                            CHR 0x1C, CHR 0x1D, CHR 0x1E, CHR 0x1F, CHR 0x85, CHR 0xA0])"

definition strip :: "string \<Rightarrow> string" where
  "strip s = rev (dropWhile is_space (rev (dropWhile is_space s)))"

text \<open>\<open>series.fillna("").astype(str).str.strip()\<close>, cell by cell.\<close>

definition fillna :: "string \<Rightarrow> cell list \<Rightarrow> cell list" where
  "fillna v vs = map (\<lambda>c. if c = NaN then Str v else c) vs"

definition astype_str :: "cell list \<Rightarrow> cell list" where
  "astype_str vs = map (\<lambda>c. Str (py_str c)) vs"

definition str_strip :: "cell list \<Rightarrow> cell list" where
  "str_strip vs = map (\<lambda>c. case c of Str s \<Rightarrow> Str (strip s) | other \<Rightarrow> NaN) vs"

definition normalize_text :: "cell list \<Rightarrow> cell list" where
  "normalize_text vs = str_strip (astype_str (fillna [] vs))"

text \<open>
  \<open>series.astype(int)\<close> on a column read from a CSV file: an integer column converts,
  a column holding a missing value or a string raises.
\<close>

definition astype_int :: "cell list \<Rightarrow> error + int list" where
  "astype_int vs =
     (if list_all (\<lambda>c. case c of Num i \<Rightarrow> True | other \<Rightarrow> False) vs
      then Inr (map (\<lambda>c. case c of Num i \<Rightarrow> i | other \<Rightarrow> 0) vs)
      else Inl ValueError)"

text \<open>
  \<open>drop_duplicates(subset=[key])\<close>: with pandas' default \<open>keep="first"\<close> the first row of
  each key survives, with \<open>keep="last"\<close> the last one; the order of the survivors is kept.
\<close>

fun drop_duplicates_first :: "('a \<Rightarrow> 'k) \<Rightarrow> 'a list \<Rightarrow> 'a list" where
  "drop_duplicates_first key [] = []"
| "drop_duplicates_first key (x # xs) =
     x # drop_duplicates_first key (filter (\<lambda>y. key y \<noteq> key x) xs)"

definition drop_duplicates_last :: "('a \<Rightarrow> 'k) \<Rightarrow> 'a list \<Rightarrow> 'a list" where
  "drop_duplicates_last key xs = rev (drop_duplicates_first key (rev xs))"

section \<open>utils.py: clean_text, read_done_ids, append_jsonl\<close>

text \<open>
  \<open>clean_text(df)\<close> takes a reference to a frame, copies it, normalises the three text
  columns that are present on the copy, and returns the reference of the copy.
\<close>

definition clean_column :: "string \<Rightarrow> nat \<Rightarrow> heap \<Rightarrow> heap" where
  "clean_column c r h =
     (case map_of (frames h r) c of
        None \<Rightarrow> h
      | Some vs \<Rightarrow> setitem r c (normalize_text vs) h)"

definition clean_text :: "nat \<Rightarrow> heap \<Rightarrow> nat \<times> heap" where
  "clean_text df h =
     (let (r, h1) = df_copy df h;
          h2 = clean_column ''Service Comments'' r h1;
          h3 = clean_column ''Priority'' r h2;
          h4 = clean_column ''Service Category'' r h3
      in (r, h4))"


section \<open>schemas.py\<close>

text \<open>
  \<open>LabeledRequest\<close> and \<open>BatchResponse\<close> are pydantic models.  The field \<open>id\<close> is
  written \<open>lr_id\<close> (\<open>id\<close> is the identity function of HOL).
\<close>

record labeled_request =
  lr_id :: int
  Priority :: string
  Service_Category :: string
  Suggested_Actions :: string

record batch_response =
  results :: "labeled_request list"

text \<open>
  A parsed JSON document (numbers are integers).  \<open>model_validate_json\<close> checks a
  document against the declared field types of the two models and nothing else, in
  pydantic's default (lax) mode:
  \<^item> of a member that occurs more than once in an object the last occurrence counts, and
    members the model does not declare are ignored;
  \<^item> an \<open>int\<close> field takes an integer, a boolean (read as 1 or 0), or a string that
    pydantic's conversion from strings to integers accepts;
  \<^item> a \<open>str\<close> field takes a string only;
  \<^item> \<open>results\<close> must be an array, and each of its elements an object.

  The conversion from strings to integers belongs to pydantic and not to the repository:
  it is the parameter \<open>str_as_int\<close> of everything that validates a response.  A
  response text that is not JSON at all fails like a document of the wrong shape.
\<close>

datatype json =
    JNull
  | JBool bool
  | JInt int
  | JStr string
  | JArr "json list"
  | JObj "(string \<times> json) list"

definition json_member :: "(string \<times> json) list \<Rightarrow> string \<Rightarrow> json option" where
  "json_member kv k = map_of (rev kv) k"

definition validate_int :: "(string \<Rightarrow> int option) \<Rightarrow> json \<Rightarrow> int option" where
  "validate_int str_as_int j =
     (case j of
        JInt i \<Rightarrow> Some i
      | JBool b \<Rightarrow> Some (if b then 1 else 0)
      | JStr s \<Rightarrow> str_as_int s
      | other \<Rightarrow> None)"

definition validate_str :: "json \<Rightarrow> string option" where
  "validate_str j = (case j of JStr s \<Rightarrow> Some s | other \<Rightarrow> None)"

definition validate_LabeledRequest ::
  "(string \<Rightarrow> int option) \<Rightarrow> json \<Rightarrow> labeled_request option" where
  "validate_LabeledRequest str_as_int j =
     (case j of
        JObj kv \<Rightarrow>
          (case (Option.bind (json_member kv ''id'') (validate_int str_as_int),
                 Option.bind (json_member kv ''Priority'') validate_str,
                 Option.bind (json_member kv ''Service_Category'') validate_str,
                 Option.bind (json_member kv ''Suggested_Actions'') validate_str) of
             (Some i, Some p, Some c, Some a) \<Rightarrow>
               Some \<lparr>lr_id = i, Priority = p, Service_Category = c, Suggested_Actions = a\<rparr>
           | other \<Rightarrow> None)
      | other \<Rightarrow> None)"

definition model_validate_json ::
  "(string \<Rightarrow> int option) \<Rightarrow> json \<Rightarrow> error + batch_response" where
  "model_validate_json str_as_int j =
     (case j of
        JObj kv \<Rightarrow>
          (case json_member kv ''results'' of
             Some (JArr items) \<Rightarrow>
               (case those (map (validate_LabeledRequest str_as_int) items) of
                  Some rs \<Rightarrow> Inr \<lparr>results = rs\<rparr>
                | None \<Rightarrow> Inl ValidationError)
           | other \<Rightarrow> Inl ValidationError)
      | other \<Rightarrow> Inl ValidationError)"

text \<open>
  The same check in the words of the corrected claim C2: the array under \<open>results\<close>,
  what it is for one of its elements to have the declared field types, and the result
  read from such an element.
\<close>

definition results_array :: "json \<Rightarrow> json list option" where
  "results_array doc =
     (case doc of
        JObj kv \<Rightarrow> (case json_member kv ''results'' of Some (JArr elems) \<Rightarrow> Some elems | other \<Rightarrow> None)
      | other \<Rightarrow> None)"

definition int_member :: "(string \<Rightarrow> int option) \<Rightarrow> (string \<times> json) list \<Rightarrow> string \<Rightarrow> int option" where
  "int_member str_as_int kv k =
     (case json_member kv k of
        Some (JInt i) \<Rightarrow> Some i
      | Some (JBool b) \<Rightarrow> Some (if b then 1 else 0)
      | Some (JStr s) \<Rightarrow> str_as_int s
      | other \<Rightarrow> None)"

definition str_member :: "(string \<times> json) list \<Rightarrow> string \<Rightarrow> string option" where
  "str_member kv k = (case json_member kv k of Some (JStr s) \<Rightarrow> Some s | other \<Rightarrow> None)"

definition has_field_types :: "(string \<Rightarrow> int option) \<Rightarrow> json \<Rightarrow> bool" where
  "has_field_types str_as_int j =
     (case j of
        JObj kv \<Rightarrow>
          int_member str_as_int kv ''id'' \<noteq> None \<and> str_member kv ''Priority'' \<noteq> None
          \<and> str_member kv ''Service_Category'' \<noteq> None \<and> str_member kv ''Suggested_Actions'' \<noteq> None
      | other \<Rightarrow> False)"

definition read_fields :: "(string \<Rightarrow> int option) \<Rightarrow> json \<Rightarrow> labeled_request" where
  "read_fields str_as_int j =
     (case j of
        JObj kv \<Rightarrow>
          \<lparr>lr_id = (case int_member str_as_int kv ''id'' of Some i \<Rightarrow> i | None \<Rightarrow> 0),
           Priority = (case str_member kv ''Priority'' of Some p \<Rightarrow> p | None \<Rightarrow> []),
           Service_Category = (case str_member kv ''Service_Category'' of Some c \<Rightarrow> c | None \<Rightarrow> []),
           Suggested_Actions = (case str_member kv ''Suggested_Actions'' of Some a \<Rightarrow> a | None \<Rightarrow> [])\<rparr>
      | other \<Rightarrow> \<lparr>lr_id = 0, Priority = [], Service_Category = [], Suggested_Actions = []\<rparr>)"

text \<open>
  \<open>x.model_dump()\<close> gives the fields of a result by name, and the JSON document of a
  \<open>BatchResponse\<close> holds them under \<open>results\<close>.
\<close>

definition model_dump :: "labeled_request \<Rightarrow> json" where
  "model_dump x =
     JObj [(''id'', JInt (lr_id x)), (''Priority'', JStr (Priority x)),
           (''Service_Category'', JStr (Service_Category x)),
           (''Suggested_Actions'', JStr (Suggested_Actions x))]"

definition model_dump_json :: "batch_response \<Rightarrow> json" where
  "model_dump_json out = JObj [(''results'', JArr (map model_dump (results out)))]"

text \<open>
  \<open>make_response_schema\<close> takes pydantic's JSON schema of \<open>BatchResponse\<close> and injects
  the two enumerations and the length bound into the properties of \<open>LabeledRequest\<close>.
  The schema is kept as the three injected constraints; it is sent to the model with the
  request and is not used again on the response.
\<close>

record response_schema =
  priority_enum :: "string list"
  category_enum :: "string list"
  actions_maxLength :: nat

definition make_response_schema :: "string list \<Rightarrow> string list \<Rightarrow> response_schema" where
  "make_response_schema allowed_priorities allowed_categories =
     \<lparr>priority_enum = allowed_priorities, category_enum = allowed_categories,
      actions_maxLength = 140\<rparr>"

section \<open>prompts.py and the classification request\<close>

text \<open>
  The system instruction interpolates the two allowed lists into a fixed text, and the
  user contents hold the JSON dump of the batch items.  The request is kept structured:
  the lists, the items and the schema, rather than the rendered prompt text.
\<close>

record payload =
  item_id :: int
  ts :: string
  comment :: string

record system_instruction =
  instr_priorities :: "string list"
  instr_categories :: "string list"

definition build_system_instruction :: "string list \<Rightarrow> string list \<Rightarrow> system_instruction" where
  "build_system_instruction allowed_priorities allowed_categories =
     \<lparr>instr_priorities = allowed_priorities, instr_categories = allowed_categories\<rparr>"

record request =
  req_instruction :: system_instruction
  req_items :: "payload list"
  req_schema :: response_schema

text \<open>
  The Gemini client is the environment: one call takes a request and yields the response
  document, or raises.
\<close>

type_synonym client_call = "request \<Rightarrow> error + json"

section \<open>label\_batch.py\<close>

definition RPM_SLEEP_SECONDS :: nat where "RPM_SLEEP_SECONDS = 13"
definition DAILY_CALL_CAP :: nat where "DAILY_CALL_CAP = 20"
definition BATCH_SIZE :: int where "BATCH_SIZE = 50"

definition label_one_batch ::
  "(string \<Rightarrow> int option) \<Rightarrow> client_call \<Rightarrow> payload list \<Rightarrow> response_schema
     \<Rightarrow> system_instruction \<Rightarrow> error + batch_response" where
  "label_one_batch str_as_int client batch_items schema instruction =
     (case client \<lparr>req_instruction = instruction, req_items = batch_items, req_schema = schema\<rparr> of
        Inl e \<Rightarrow> Inl e
      | Inr text \<Rightarrow> model_validate_json str_as_int text)"


text \<open>
  The files and the environment \<open>main\<close> works on.  The source CSV is a frame or is
  missing.  The snapshot \<open>predictions.csv\<close> is missing, unreadable by \<open>pd.read_csv\<close>, or
  holds one row per stored result.  The append log \<open>predictions.jsonl\<close> is the list of
  its lines (a missing log has none).
\<close>

datatype pred_file = Absent | Corrupt | Frame "labeled_request list"

record world =
  api_key :: "string option"
  data_csv :: "dataframe option"
  pred_csv :: pred_file
  pred_jsonl :: "labeled_request list"

definition bind_err :: "error + 'a \<Rightarrow> ('a \<Rightarrow> error + 'b) \<Rightarrow> error + 'b" where
  "bind_err m f = (case m of Inl e \<Rightarrow> Inl e | Inr x \<Rightarrow> f x)"

definition read_done_ids :: "pred_file \<Rightarrow> int set" where
  "read_done_ids csv =
     (case csv of
        Absent \<Rightarrow> {}
      | Corrupt \<Rightarrow> {}
      | Frame rows \<Rightarrow> set (map lr_id rows))"

definition append_jsonl :: "labeled_request list \<Rightarrow> labeled_request list \<Rightarrow> labeled_request list" where
  "append_jsonl file records = file @ records"

text \<open>The lines \<open>main\<close> prints.\<close>

datatype message =
    AlreadyAllIds
  | ReachedCap nat
  | NoNewPredictions
  | Saved nat

text \<open>
  Lines 45 to 63 of \<open>main\<close>: the API key, the cleaned source frame, the allowed values,
  the schema and the instruction, and the integer ids of the source rows.
\<close>

record source =
  src_df :: dataframe
  src_ids :: "int list"
  src_schema :: response_schema
  src_instruction :: system_instruction

definition allowed_values :: "cell list \<Rightarrow> string list" where
  "allowed_values col = sort (remdups (map py_str (filter (\<lambda>c. c \<noteq> NaN) col)))"

definition load_source :: "world \<Rightarrow> error + source" where
  "load_source w =
     (case api_key w of
        None \<Rightarrow> Inl RuntimeError
      | Some k \<Rightarrow>
          if k = [] then Inl RuntimeError
          else (case data_csv w of
             None \<Rightarrow> Inl FileNotFoundError
           | Some raw \<Rightarrow>
               let (loaded, h0) = alloc raw \<lparr>next_ref = 0, frames = (\<lambda>r. [])\<rparr>;
                   (r, h) = clean_text loaded h0;
                   df = frames h r
               in bind_err (getitem df ''Priority'') (\<lambda>ps.
                  bind_err (getitem df ''Service Category'') (\<lambda>cs.
                  bind_err (getitem df ''id'') (\<lambda>id_col.
                  bind_err (astype_int id_col) (\<lambda>ids.
                    Inr \<lparr>src_df = df, src_ids = ids,
                         src_schema = make_response_schema (allowed_values ps) (allowed_values cs),
                         src_instruction = build_system_instruction (allowed_values ps) (allowed_values cs)\<rparr>))))))"

text \<open>Lines 69 to 72: one payload per pending row; nothing is looked up when no row is pending.\<close>

definition payload_rows :: "dataframe \<Rightarrow> error + payload list" where
  "payload_rows todo =
     (if nrows todo = 0 then Inr []
      else bind_err (getitem todo ''id'') (\<lambda>id_col.
           bind_err (astype_int id_col) (\<lambda>ids.
           bind_err (getitem todo ''SR start date/time'') (\<lambda>starts.
           bind_err (getitem todo ''Service Comments'') (\<lambda>comments.
             Inr (map (\<lambda>(i, t, c). \<lparr>item_id = i, ts = py_str t, comment = py_str c\<rparr>)
                      (zip ids (zip starts comments))))))))"

text \<open>
  Lines 45 to 77: what a run has to do.  Either every id is in the snapshot already, or
  the pending rows are split into the batches the loop goes through.
\<close>

datatype plan = NothingToDo | Batches source "payload list list"

definition plan_run :: "int \<Rightarrow> world \<Rightarrow> error + plan" where
  "plan_run batch_size w =
     bind_err (load_source w) (\<lambda>s.
       let done_ids = read_done_ids (pred_csv w);
           todo = filter_rows (map (\<lambda>i. i \<notin> done_ids) (src_ids s)) (src_df s)
       in if nrows todo = 0 then Inr NothingToDo
          else bind_err (payload_rows todo) (\<lambda>rows.
               bind_err (chunked rows batch_size) (\<lambda>batches.
                 Inr (Batches s batches))))"

text \<open>
  Lines 74 to 89: the labelling loop.  \<open>issued\<close> counts the requests sent to the client
  and \<open>waited\<close> the seconds slept by the limiter; the other fields are the variables
  and the append log of the source.
\<close>

record loop_state =
  calls_made :: nat
  all_records :: "labeled_request list"
  jsonl :: "labeled_request list"
  printed :: "message list"
  issued :: nat
  waited :: nat

definition loop_start :: "world \<Rightarrow> loop_state" where
  "loop_start w =
     \<lparr>calls_made = 0, all_records = [], jsonl = pred_jsonl w, printed = [],
      issued = 0, waited = 0\<rparr>"

datatype flow = Continue loop_state | Break loop_state | Raise error loop_state

definition loop_body ::
  "(string \<Rightarrow> int option) \<Rightarrow> nat \<Rightarrow> (nat \<Rightarrow> client_call) \<Rightarrow> source \<Rightarrow> payload list
     \<Rightarrow> loop_state \<Rightarrow> flow" where
  "loop_body str_as_int cap client s batch st =
     (if cap \<le> calls_made st then Break (st\<lparr>printed := printed st @ [ReachedCap cap]\<rparr>)
      else (case label_one_batch str_as_int (client (issued st)) batch (src_schema s) (src_instruction s) of
         Inl e \<Rightarrow> Raise e (st\<lparr>issued := Suc (issued st)\<rparr>)
       | Inr out \<Rightarrow>
           Continue (st\<lparr>issued := Suc (issued st),
                        jsonl := append_jsonl (jsonl st) (results out),
                        all_records := all_records st @ results out,
                        calls_made := Suc (calls_made st),
                        waited := waited st + RPM_SLEEP_SECONDS\<rparr>)))"

fun label_loop ::
  "(string \<Rightarrow> int option) \<Rightarrow> nat \<Rightarrow> (nat \<Rightarrow> client_call) \<Rightarrow> source \<Rightarrow> payload list list \<Rightarrow> loop_state
     \<Rightarrow> error option \<times> loop_state" where
  "label_loop str_as_int cap client s [] st = (None, st)"
| "label_loop str_as_int cap client s (batch # rest) st =
     (case loop_body str_as_int cap client s batch st of
        Continue st' \<Rightarrow> label_loop str_as_int cap client s rest st'
      | Break st' \<Rightarrow> (None, st')
      | Raise e st' \<Rightarrow> (Some e, st'))"

text \<open>The states the loop goes through, from the first to the one it ends in.\<close>

fun label_states ::
  "(string \<Rightarrow> int option) \<Rightarrow> nat \<Rightarrow> (nat \<Rightarrow> client_call) \<Rightarrow> source \<Rightarrow> payload list list \<Rightarrow> loop_state
     \<Rightarrow> loop_state list" where
  "label_states str_as_int cap client s [] st = [st]"
| "label_states str_as_int cap client s (batch # rest) st =
     (case loop_body str_as_int cap client s batch st of
        Continue st' \<Rightarrow> st # label_states str_as_int cap client s rest st'
      | Break st' \<Rightarrow> [st, st']
      | Raise e st' \<Rightarrow> [st, st'])"

text \<open>
  Lines 91 to 103: the merge of the results of this run into the snapshot, and the line
  printed.  Nothing is written when the run has no result.
\<close>

definition merge_predictions ::
  "pred_file \<Rightarrow> labeled_request list \<Rightarrow> error + pred_file \<times> message" where
  "merge_predictions csv pred_df =
     (if pred_df = [] then Inr (csv, NoNewPredictions)
      else (case csv of
         Absent \<Rightarrow> Inr (Frame pred_df, Saved (length pred_df))
       | Corrupt \<Rightarrow> Inl ParserError
       | Frame existing \<Rightarrow>
           let combined = drop_duplicates_first lr_id (existing @ pred_df)
           in Inr (Frame combined, Saved (length combined))))"

text \<open>
  What a run leaves behind: the exception it ended with (if any), the lines printed, the
  number of requests sent, and the two ledger files.
\<close>

record run =
  run_error :: "error option"
  run_printed :: "message list"
  run_calls :: nat
  run_pred_csv :: pred_file
  run_pred_jsonl :: "labeled_request list"

definition main_with ::
  "(string \<Rightarrow> int option) \<Rightarrow> nat \<Rightarrow> int \<Rightarrow> (nat \<Rightarrow> client_call) \<Rightarrow> world \<Rightarrow> run" where
  "main_with str_as_int cap batch_size client w =
     (case plan_run batch_size w of
        Inl e \<Rightarrow>
          \<lparr>run_error = Some e, run_printed = [], run_calls = 0,
           run_pred_csv = pred_csv w, run_pred_jsonl = pred_jsonl w\<rparr>
      | Inr NothingToDo \<Rightarrow>
          \<lparr>run_error = None, run_printed = [AlreadyAllIds], run_calls = 0,
           run_pred_csv = pred_csv w, run_pred_jsonl = pred_jsonl w\<rparr>
      | Inr (Batches s batches) \<Rightarrow>
          (case label_loop str_as_int cap client s batches (loop_start w) of
             (Some e, st) \<Rightarrow>
               \<lparr>run_error = Some e, run_printed = printed st, run_calls = issued st,
                run_pred_csv = pred_csv w, run_pred_jsonl = jsonl st\<rparr>
           | (None, st) \<Rightarrow>
               (case merge_predictions (pred_csv w) (all_records st) of
                  Inl e \<Rightarrow>
                    \<lparr>run_error = Some e, run_printed = printed st, run_calls = issued st,
                     run_pred_csv = pred_csv w, run_pred_jsonl = jsonl st\<rparr>
                | Inr (csv, line) \<Rightarrow>
                    \<lparr>run_error = None, run_printed = printed st @ [line], run_calls = issued st,
                     run_pred_csv = csv, run_pred_jsonl = jsonl st\<rparr>)))"

definition main :: "(string \<Rightarrow> int option) \<Rightarrow> (nat \<Rightarrow> client_call) \<Rightarrow> world \<Rightarrow> run" where
  "main str_as_int client w = main_with str_as_int DAILY_CALL_CAP BATCH_SIZE client w"

section \<open>build\_demo\_examples.py: the priority quotas\<close>

text \<open>
  \<open>_compute_priority_targets(df, n, priority_col)\<close>.  The labels are the cells of the
  priority column after \<open>fillna("").astype(str).str.strip()\<close>; \<open>value_counts().to_dict()\<close>
  maps each label that occurs to the number of its rows, and \<open>priorities\<close> are the keys of
  that dictionary in sorted order.  The dictionary \<open>targets\<close> is a function on the labels.
\<close>

definition priority_labels :: "cell list \<Rightarrow> string list" where
  "priority_labels col = map py_str (normalize_text col)"

definition value_counts :: "string list \<Rightarrow> string \<Rightarrow> int" where
  "value_counts labels p = int (count_list labels p)"

text \<open>Lines 38 to 45: the near-equal split of \<open>n\<close> over the priorities in their order.\<close>

definition near_equal_split :: "int \<Rightarrow> string list \<Rightarrow> string \<Rightarrow> int" where
  "near_equal_split n priorities p =
     (case map_of (zip priorities [0..<length priorities]) p of
        Some i \<Rightarrow> n div int (length priorities)
                   + (if int i < n mod int (length priorities) then 1 else 0)
      | None \<Rightarrow> 0)"

text \<open>Lines 48 to 52: cap every target by the rows available, and add up what was cut.\<close>

fun cap_targets ::
  "(string \<Rightarrow> int) \<Rightarrow> string list \<Rightarrow> (string \<Rightarrow> int) \<times> int \<Rightarrow> (string \<Rightarrow> int) \<times> int" where
  "cap_targets counts [] (targets, deficit) = (targets, deficit)"
| "cap_targets counts (p # ps) (targets, deficit) =
     (if targets p > counts p
      then cap_targets counts ps (targets(p := counts p), deficit + (targets p - counts p))
      else cap_targets counts ps (targets, deficit))"

text \<open>
  Lines 57 to 65: one pass of the \<open>for\<close> loop over the priorities in the order given,
  which hands one unit to every priority with spare rows and stops when the deficit is
  used up.
\<close>

fun reassign_pass ::
  "(string \<Rightarrow> int) \<Rightarrow> string list \<Rightarrow> (string \<Rightarrow> int) \<times> int \<times> bool
     \<Rightarrow> (string \<Rightarrow> int) \<times> int \<times> bool" where
  "reassign_pass counts [] (targets, deficit, progressed) = (targets, deficit, progressed)"
| "reassign_pass counts (p # ps) (targets, deficit, progressed) =
     (if counts p - targets p \<le> 0 then reassign_pass counts ps (targets, deficit, progressed)
      else if deficit - 1 = 0 then (targets(p := targets p + 1), deficit - 1, True)
      else reassign_pass counts ps (targets(p := targets p + 1), deficit - 1, True))"

lemma reassign_pass_deficit:
  "reassign_pass counts ps (t, d, g) = (t', d', g') \<Longrightarrow> d' \<le> d \<and> (g' \<longrightarrow> g \<or> d' < d)"
proof (induction ps arbitrary: t d g)
  case Nil
  then show ?case by simp
next
  case (Cons p ps)
  show ?case
  proof (cases "counts p - t p \<le> 0")
    case True
    with Cons.prems have "reassign_pass counts ps (t, d, g) = (t', d', g')" by simp
    from Cons.IH[OF this] show ?thesis .
  next
    case False
    show ?thesis
    proof (cases "d - 1 = 0")
      case True
      then show ?thesis using False Cons.prems by auto
    next
      case nz: False
      from Cons.prems False nz
      have "reassign_pass counts ps (t(p := t p + 1), d - 1, True) = (t', d', g')" by simp
      from Cons.IH[OF this] show ?thesis by auto
    qed
  qed
qed

text \<open>
  Lines 55 to 67: the \<open>while\<close> loop.  Each round sorts the priorities by their current
  target and name, and the loop ends when the deficit is used up or a round hands out
  nothing.
\<close>

function reassign ::
  "(string \<Rightarrow> int) \<Rightarrow> string list \<Rightarrow> (string \<Rightarrow> int) \<times> int \<Rightarrow> (string \<Rightarrow> int) \<times> int" where
  "reassign counts priorities (targets, deficit) =
     (if deficit > 0
      then (case reassign_pass counts (sort_key (\<lambda>x. (targets x, x)) priorities)
                   (targets, deficit, False) of
              (targets', deficit', progressed) \<Rightarrow>
                if \<not> progressed then (targets', deficit')
                else reassign counts priorities (targets', deficit'))
      else (targets, deficit))"
  by pat_completeness auto
termination
  apply (relation "measure (\<lambda>(counts, priorities, targets, deficit). nat deficit)")
   apply simp
  apply simp
  subgoal for counts priorities targets deficit x y xa ya
    using reassign_pass_deficit[of counts "sort_key (\<lambda>x. (targets x, x)) priorities"
        targets deficit False x xa True]
    by auto
  done

text \<open>
  Lines 32 to 69, from the dictionary of counts on; then the function on the cells of the
  priority column, and on a frame and the name of the column.  The result is the
  dictionary \<open>targets\<close> as the list of its items, in the order of \<open>priorities\<close>.
\<close>

definition targets_from_counts :: "(string \<Rightarrow> int) \<Rightarrow> string list \<Rightarrow> int \<Rightarrow> (string \<times> int) list" where
  "targets_from_counts counts priorities n =
     (if priorities = [] then []
      else
        let n' = min n (sum_list (map counts priorities));
            (capped, deficit) = cap_targets counts priorities (near_equal_split n' priorities, 0);
            (targets, left) = reassign counts priorities (capped, deficit)
        in map (\<lambda>p. (p, targets p)) priorities)"

definition column_targets :: "cell list \<Rightarrow> int \<Rightarrow> (string \<times> int) list" where
  "column_targets col n =
     (let labels = priority_labels col;
          counts = value_counts labels;
          priorities = sort (remdups labels)
      in targets_from_counts counts priorities n)"

definition compute_priority_targets ::
  "dataframe \<Rightarrow> int \<Rightarrow> string \<Rightarrow> error + (string \<times> int) list" where
  "compute_priority_targets df n priority_col =
     bind_err (getitem df priority_col) (\<lambda>col. Inr (column_targets col n))"

text \<open>The invariant of the capping and of the reassignment: no target above the rows
  available, and targets and deficit adding up to the amount to hand out.\<close>

definition quota_inv :: "string set \<Rightarrow> (string \<Rightarrow> int) \<Rightarrow> int \<Rightarrow> (string \<Rightarrow> int) \<Rightarrow> int \<Rightarrow> bool" where
  "quota_inv S counts amount t d = ((\<forall>p\<in>S. t p \<le> counts p) \<and> sum t S + d = amount)"

section \<open>Example inputs\<close>

text \<open>
  A source file of three requests, a classifier that labels every item it is sent, a
  world in which nothing is labelled yet and one in which everything is.  The example
  responses carry integer ids, so the examples run with a conversion that reads no
  string as an integer.
\<close>

definition no_string_ids :: "string \<Rightarrow> int option" where
  "no_string_ids s = None"

definition example_source :: dataframe where
  "example_source =
     [(''id'', [Num 1, Num 2, Num 3]),
      (''SR start date/time'', [Str ''2024-01-01'', Str ''2024-01-02'', Str ''2024-01-03'']),
      (''Service Comments'', [Str ''leak '', NaN, Str ''noise'']),
      (''Priority'', [Str ''High'', Str ''Low'', Str ''Low'']),
      (''Service Category'', [Str ''Plumbing'', Str ''Noise'', Str ''Noise''])]"

definition example_result :: "int \<Rightarrow> labeled_request" where
  "example_result i =
     \<lparr>lr_id = i, Priority = ''Low'', Service_Category = ''Noise'', Suggested_Actions = ''Please wait.''\<rparr>"

definition labelled_world :: world where
  "labelled_world =
     \<lparr>api_key = Some ''key'', data_csv = Some example_source,
      pred_csv = Frame [example_result 1, example_result 2, example_result 3],
      pred_jsonl = [example_result 1, example_result 2, example_result 3]\<rparr>"


definition example_client :: "nat \<Rightarrow> client_call" where
  "example_client k req =
     Inr (model_dump_json \<lparr>results = map (\<lambda>p. example_result (item_id p)) (req_items req)\<rparr>)"

text \<open>A joined population of seven rows, two of one priority and five of another.\<close>

definition example_priorities :: dataframe where
  "example_priorities =
     [(''id'', [Num 1, Num 2, Num 3, Num 4, Num 5, Num 6, Num 7]),
      (''resident_selected_priority'',
         [Str ''High'', Str ''Low'', Str ''Low '', Str ''High'', Str ''Low'', Str ''Low'', Str ''Low''])]"

section \<open>Properties of chunked\<close>

lemma div_step: 
  assumes "0 < (step::int)" 
  shows "(d + step - 1) div step = (d - 1) div step + 1"
proof -
  have e: "d + step - 1 = (d - 1) + step" by simp
  show ?thesis unfolding e using assms by simp
qed

lemma div_last: 
  assumes "0 < (d::int)" "d \<le> step"
  shows "(d + step - 1) div step = 1"
proof -
  have "(d - 1) div step = 0" using assms by (simp add: div_pos_pos_trivial)
  then show ?thesis using div_step[of step d] assms by simp
qed

lemma ceil_div: 
  assumes "0 < (n::int)"
  shows "(l + n - 1) div n = \<lceil>real_of_int l / real_of_int n\<rceil>"
proof -
  define q where "q = l div n"
  define r where "r = l mod n"
  have l: "l = q * n + r" by (simp add: q_def r_def)
  have r: "0 \<le> r" "r < n" using assms by (simp_all add: r_def)
  have c: "\<lceil>real_of_int l / real_of_int n\<rceil> = - (- l div n)"
    by (rule ceiling_divide_eq_div)
  show ?thesis
  proof (cases "r = 0")
    case True
    have e: "l - 1 = (n - 1) + (q - 1) * n" using l True by (simp add: algebra_simps)
    have "(l - 1) div n = (n - 1) div n + (q - 1)" unfolding e using assms by simp
    moreover have "(n - 1) div n = 0" using assms by (simp add: div_pos_pos_trivial)
    ultimately have a: "(l + n - 1) div n = q" using div_step[OF assms, of l] by simp
    have "- l = (- q) * n" using l True by simp
    then have "- l div n = - q" using assms by (simp only: nonzero_mult_div_cancel_right)
    then show ?thesis using a c by simp
  next
    case False
    have e: "l - 1 = (r - 1) + q * n" using l by (simp add: algebra_simps)
    have "(l - 1) div n = (r - 1) div n + q" unfolding e using assms by simp
    moreover have "(r - 1) div n = 0" using r False by (simp add: div_pos_pos_trivial)
    ultimately have a: "(l + n - 1) div n = q + 1" using div_step[OF assms, of l] by simp
    have "l mod n \<noteq> 0" using False by (simp add: r_def)
    then have "- l div n = - q - 1" using assms by (simp add: zdiv_zminus1_eq_if q_def)
    then show ?thesis using a c by simp
  qed
qed

lemma range_up_length:
  "0 < step \<Longrightarrow> i \<le> stop \<Longrightarrow>
   int (length (range_up i stop step)) = (stop - i + step - 1) div step"
proof (induction i stop step rule: range_up.induct)
  case (1 i stop step)
  show ?case
  proof (cases "i < stop")
    case True
    show ?thesis
    proof (cases "i + step \<le> stop")
      case le: True
      have "(stop - i + step - 1) div step = (stop - (i + step) + step - 1) div step + 1"
        using div_step[OF 1(2), of "stop - i"] by simp
      then show ?thesis using 1 True le by simp
    next
      case False
      then have r: "range_up (i + step) stop step = []" by simp
      have "(stop - i + step - 1) div step = 1"
        using False True div_last[of "stop - i" step] by simp
      then show ?thesis using True 1(2) r by simp
    qed
  next
    case False
    then have "i = stop" using 1 by simp
    then show ?thesis using 1(2) by simp
  qed
qed

lemma range_up_nth:
  "0 < step \<Longrightarrow> k < length (range_up i stop step) \<Longrightarrow>
   range_up i stop step ! k = i + int k * step"
proof (induction i stop step arbitrary: k rule: range_up.induct)
  case (1 i stop step)
  show ?case
  proof (cases "i < stop")
    case True
    show ?thesis
    proof (cases k)
      case 0
      then show ?thesis using True 1(2) by simp
    next
      case (Suc k')
      have "k' < length (range_up (i + step) stop step)"
        using 1(3) True 1(2) Suc by simp
      from 1(1)[OF _ 1(2) this] True 1(2)
      have "range_up (i + step) stop step ! k' = i + step + int k' * step" by simp
      then show ?thesis using True 1(2) Suc by (simp add: algebra_simps)
    qed
  next
    case False
    then show ?thesis using 1(3) by simp
  qed
qed

lemma py_slice_window:
  assumes "0 \<le> i" "0 < n"
  shows "py_slice xs i (i + n) = take (nat n) (drop (nat i) xs)"
proof (cases "nat i \<le> length xs")
  case inside: True
  show ?thesis
  proof (cases "nat (i + n) \<le> length xs")
    case True
    have "nat (i + n) - nat i = nat n"
      using assms by (simp add: nat_add_distrib)
    then show ?thesis
      using assms inside True by (simp add: py_slice_def slice_bound_def Let_def)
  next
    case False
    then have "length xs - nat i \<le> nat n"
      using assms by (simp add: nat_add_distrib)
    then show ?thesis
      using assms inside False by (simp add: py_slice_def slice_bound_def Let_def min_def)
  qed
next
  case False
  then show ?thesis
    using assms by (simp add: py_slice_def slice_bound_def Let_def)
qed

lemma chunks_concat:
  "0 < n \<Longrightarrow> 0 \<le> i \<Longrightarrow> i \<le> int (length xs) \<Longrightarrow>
   concat (map (\<lambda>j. py_slice xs j (j + n)) (range_up i (int (length xs)) n)) = drop (nat i) xs"
proof (induction i "int (length xs)" n rule: range_up.induct)
  case (1 i step)
  show ?case
  proof (cases "i < int (length xs)")
    case True
    show ?thesis
    proof (cases "i + step \<le> int (length xs)")
      case le: True
      have ih: "concat (map (\<lambda>j. py_slice xs j (j + step)) (range_up (i + step) (int (length xs)) step))
          = drop (nat (i + step)) xs"
        using 1 True le by simp
      have "take (nat step) (drop (nat i) xs) @ drop (nat (i + step)) xs = drop (nat i) xs"
        using 1(2,3) append_take_drop_id[of "nat step" "drop (nat i) xs"]
        by (simp add: nat_add_distrib add.commute)
      then show ?thesis
        using True 1(2,3) ih by (simp add: py_slice_window)
    next
      case False
      then have r: "range_up (i + step) (int (length xs)) step = []" by simp
      have "take (nat step) (drop (nat i) xs) = drop (nat i) xs"
        using False 1(2,3) by simp
      then show ?thesis using True 1(2,3) r by (simp add: py_slice_window)
    qed
  next
    case False
    then show ?thesis using 1 by simp
  qed
qed

lemma chunk_lengths:
  assumes "0 < n" "Suc k < length (range_up 0 (int (length xs)) n)"
  shows "int (length (py_slice xs (range_up 0 (int (length xs)) n ! k)
                        (range_up 0 (int (length xs)) n ! k + n))) = n"
proof -
  let ?r = "range_up 0 (int (length xs)) n"
  have k: "?r ! k = int k * n"
    using range_up_nth[of n k 0 "int (length xs)"] assms by simp
  have "int (Suc k) < int (length ?r)" using assms(2) by simp
  then have "int k + 1 < (int (length xs) + n - 1) div n"
    using range_up_length[of n 0 "int (length xs)"] assms(1) by simp
  then have "int k + 2 \<le> (int (length xs) + n - 1) div n" by simp
  then have "(int k + 2) * n \<le> ((int (length xs) + n - 1) div n) * n"
    using assms(1) by (simp add: mult_right_mono)
  also have "\<dots> \<le> int (length xs) + n - 1"
    using assms(1) by (metis mult.commute pos_mod_sign mult_div_mod_eq add_increasing2 order_refl)
  finally have "int k * n + n \<le> int (length xs)"
    by (simp add: algebra_simps)
  moreover have "0 \<le> int k * n" using assms(1) by simp
  ultimately have "nat n \<le> length xs - nat (int k * n)"
    using assms(1) by linarith
  then show ?thesis
    using assms(1) k \<open>0 \<le> int k * n\<close> by (simp add: py_slice_window)
qed

text \<open>
  Claim C4.  For a positive size \<open>n\<close>, \<open>chunked seq n\<close> yields \<open>ceil(L / n)\<close> groups for a
  sequence of length \<open>L\<close>, the groups concatenated in order are the sequence, and every
  group but the last has exactly \<open>n\<close> elements.
\<close>

theorem chunked_partition:
  assumes "0 < n"
  shows "\<exists>gs. chunked seq n = Inr gs
           \<and> int (length gs) = \<lceil>real (length seq) / real_of_int n\<rceil>
           \<and> concat gs = seq
           \<and> (\<forall>k. Suc k < length gs \<longrightarrow> int (length (gs ! k)) = n)"
proof -
  let ?r = "range_up 0 (int (length seq)) n"
  let ?gs = "map (\<lambda>i. py_slice seq i (i + n)) ?r"
  have run: "chunked seq n = Inr ?gs"
    using assms by (simp add: chunked_def py_range_def)
  have cnt: "int (length ?gs) = \<lceil>real (length seq) / real_of_int n\<rceil>"
    using range_up_length[of n 0 "int (length seq)"] ceil_div[of n "int (length seq)"] assms
    by simp
  have cat: "concat ?gs = seq"
    using chunks_concat[of n 0 seq] assms by simp
  have len: "\<forall>k. Suc k < length ?gs \<longrightarrow> int (length (?gs ! k)) = n"
    using chunk_lengths[OF assms, of _ seq] by simp
  show ?thesis using run cnt cat len by blast
qed

theorem chunked_partition_witness:
  "(0::int) < 2 \<and> chunked [1, 2, 3, 4, 5 :: nat] 2 = Inr [[1, 2], [3, 4], [5]]
   \<and> int (length [[1, 2], [3, 4], [5 :: nat]]) = \<lceil>real (length [1, 2, 3, 4, 5 :: nat]) / real_of_int 2\<rceil>
   \<and> concat [[1, 2], [3, 4], [5 :: nat]] = [1, 2, 3, 4, 5]"
proof -
  have run: "chunked [1, 2, 3, 4, 5 :: nat] 2 = Inr [[1, 2], [3, 4], [5]]"
    by (simp add: chunked_def py_range_def py_slice_def slice_bound_def)
  from chunked_partition[of 2 "[1, 2, 3, 4, 5 :: nat]"] run
  show ?thesis by auto
qed

text \<open>
  Claim C5, as the code has it.  \<open>chunked\<close> does no check of its own on the size: a
  size of zero fails with the \<open>ValueError\<close> of \<open>range\<close>, and a negative size yields no
  group at all, whatever the sequence.
\<close>

theorem chunked_nonpositive:
  "chunked seq 0 = Inl ValueError \<and> chunked seq (- int (Suc k)) = Inr []"
  by (simp add: chunked_def py_range_def)

text \<open>A negative size on a sequence of three elements: no error, and no group.\<close>

theorem chunked_negative_counterexample:
  "chunked [1, 2, 3 :: nat] (- 1) = Inr []"
  by (simp add: chunked_def py_range_def)

section \<open>Validation of the classifier response\<close>

lemma validate_LabeledRequest_fields:
  "validate_LabeledRequest conv j
     = (if has_field_types conv j then Some (read_fields conv j) else None)"
proof (cases j)
  case (JObj kv)
  have i: "Option.bind (json_member kv k) (validate_int conv) = int_member conv kv k" for k
    by (simp add: int_member_def validate_int_def split: option.splits json.splits)
  have s: "Option.bind (json_member kv k) validate_str = str_member kv k" for k
    by (simp add: str_member_def validate_str_def split: option.splits json.splits)
  show ?thesis
    unfolding validate_LabeledRequest_def has_field_types_def read_fields_def JObj
    by (simp add: i s split: option.splits)
qed (simp_all add: validate_LabeledRequest_def has_field_types_def)

lemma those_map_if:
  "those (map (\<lambda>x. if P x then Some (f x) else None) xs)
     = (if list_all P xs then Some (map f xs) else None)"
  by (induction xs) simp_all

lemma model_validate_json_fields:
  "model_validate_json conv doc
     = (case results_array doc of
          None \<Rightarrow> Inl ValidationError
        | Some elems \<Rightarrow>
            if list_all (has_field_types conv) elems
            then Inr \<lparr>results = map (read_fields conv) elems\<rparr>
            else Inl ValidationError)"
proof -
  have v: "validate_LabeledRequest conv = (\<lambda>j. if has_field_types conv j then Some (read_fields conv j) else None)"
    by (rule ext) (rule validate_LabeledRequest_fields)
  show ?thesis
    unfolding model_validate_json_def results_array_def v those_map_if
    by (simp split: json.splits option.splits)
qed

text \<open>
  Claim C2, as the code has it.  \<open>label_one_batch\<close> sends one request, holding the
  instruction, the submitted items and the schema it was given, and checks the response
  against the field types of \<open>BatchResponse\<close> only.  An exception of the client call is
  passed on.  The call fails with \<open>ValidationError\<close> exactly when the response is not an
  object whose \<open>results\<close> member is an array of objects that each have an \<open>id\<close> pydantic
  reads as an integer and strings as \<open>Priority\<close>, \<open>Service_Category\<close> and
  \<open>Suggested_Actions\<close>.  Every other response is accepted and its results are returned as
  read: neither their number, nor their ids, nor the allowed priorities and categories
  are compared with anything.
\<close>

theorem label_one_batch_checks_field_types_only:
  "label_one_batch conv client batch_items schema instruction
     = (case client \<lparr>req_instruction = instruction, req_items = batch_items, req_schema = schema\<rparr> of
          Inl e \<Rightarrow> Inl e
        | Inr doc \<Rightarrow>
            (case results_array doc of
               None \<Rightarrow> Inl ValidationError
             | Some elems \<Rightarrow>
                 if list_all (has_field_types conv) elems
                 then Inr \<lparr>results = map (read_fields conv) elems\<rparr>
                 else Inl ValidationError))"
  by (simp add: label_one_batch_def model_validate_json_fields split: sum.splits)

text \<open>
  Two items are submitted with ids 1 and 2; the response holds one result, for id 99,
  with a priority and a category outside the allowed lists.  It is accepted.  The
  response holds no string id, so the conversion from strings plays no part.
\<close>

theorem label_one_batch_drift_counterexample:
  "label_one_batch no_string_ids
     (\<lambda>req. Inr (JObj [(''results'', JArr [JObj [(''id'', JInt 99), (''Priority'', JStr ''Bogus''),
         (''Service_Category'', JStr ''Nowhere''), (''Suggested_Actions'', JStr ''Wait.'')]])]))
     [\<lparr>item_id = 1, ts = ''2024-01-01'', comment = ''leak''\<rparr>,
      \<lparr>item_id = 2, ts = ''2024-01-02'', comment = ''noise''\<rparr>]
     (make_response_schema [''High'', ''Low''] [''Plumbing''])
     (build_system_instruction [''High'', ''Low''] [''Plumbing''])
   = Inr \<lparr>results = [\<lparr>lr_id = 99, Priority = ''Bogus'', Service_Category = ''Nowhere'',
                          Suggested_Actions = ''Wait.''\<rparr>]\<rparr>"
  by (simp add: label_one_batch_def model_validate_json_def validate_LabeledRequest_def
      json_member_def validate_int_def validate_str_def)

text \<open>
  The same holds with every conversion from strings.  What is accepted does not depend
  on the items, the schema or the instruction of the request when the classifier answers
  with the same document; and the three kinds of response the code does reject are a
  document without an array under \<open>results\<close>, an element that is no object, and a field
  of the wrong type.
\<close>

lemma label_one_batch_drift_any_conversion:
  "label_one_batch conv
     (\<lambda>req. Inr (JObj [(''results'', JArr [JObj [(''id'', JInt 99), (''Priority'', JStr ''Bogus''),
         (''Service_Category'', JStr ''Nowhere''), (''Suggested_Actions'', JStr ''Wait.'')]])]))
     batch_items schema instruction
   = Inr \<lparr>results = [\<lparr>lr_id = 99, Priority = ''Bogus'', Service_Category = ''Nowhere'',
                          Suggested_Actions = ''Wait.''\<rparr>]\<rparr>"
  by (simp add: label_one_batch_def model_validate_json_def validate_LabeledRequest_def
      json_member_def validate_int_def validate_str_def)

lemma label_one_batch_ignores_request:
  "label_one_batch conv (\<lambda>req. Inr doc) batch_items schema instruction
     = label_one_batch conv (\<lambda>req. Inr doc) batch_items' schema' instruction'"
  by (simp add: label_one_batch_def)

lemma label_one_batch_rejects_examples:
  "label_one_batch conv (\<lambda>req. Inr (JObj [(''results'', JNull)])) batch_items schema instruction
     = Inl ValidationError"
  "label_one_batch conv (\<lambda>req. Inr (JObj [(''results'', JArr [JInt 1])])) batch_items schema instruction
     = Inl ValidationError"
  "label_one_batch conv
     (\<lambda>req. Inr (JObj [(''results'', JArr [JObj [(''id'', JInt 1), (''Priority'', JInt 2),
         (''Service_Category'', JStr ''Noise''), (''Suggested_Actions'', JStr ''Wait.'')]])]))
     batch_items schema instruction
     = Inl ValidationError"
  by (simp_all add: label_one_batch_def model_validate_json_def validate_LabeledRequest_def
      json_member_def validate_int_def validate_str_def)

lemma label_one_batch_lax_examples:
  "label_one_batch conv
     (\<lambda>req. Inr (JObj [(''extra'', JNull), (''results'', JArr [JObj [(''Priority'', JStr ''Low''),
         (''id'', JInt 5), (''id'', JBool True), (''Service_Category'', JStr ''Noise''),
         (''Suggested_Actions'', JStr ''Wait.''), (''note'', JInt 0)]])]))
     batch_items schema instruction
   = Inr \<lparr>results = [\<lparr>lr_id = 1, Priority = ''Low'', Service_Category = ''Noise'',
                          Suggested_Actions = ''Wait.''\<rparr>]\<rparr>"
  by (simp add: label_one_batch_def model_validate_json_def validate_LabeledRequest_def
      json_member_def validate_int_def validate_str_def)




section \<open>The merge into the snapshot\<close>

text \<open>
  Claim C1.  The snapshot holds a result for id 7 and the run received a newer result
  for id 7: the merged snapshot keeps the older one.  The merge keeps the first row of
  an id, not the most recently appended.
\<close>

theorem merge_keeps_existing_value:
  "merge_predictions
     (Frame [\<lparr>lr_id = 7, Priority = ''Low'', Service_Category = ''Plumbing'', Suggested_Actions = ''old''\<rparr>])
     [\<lparr>lr_id = 7, Priority = ''High'', Service_Category = ''Electrical'', Suggested_Actions = ''new''\<rparr>]
   = Inr (Frame [\<lparr>lr_id = 7, Priority = ''Low'', Service_Category = ''Plumbing'', Suggested_Actions = ''old''\<rparr>],
          Saved 1)"
  by (simp add: merge_predictions_def)

lemma ddf_keys: "key ` set (drop_duplicates_first key xs) = key ` set xs"
proof (induction key xs rule: drop_duplicates_first.induct)
  case (1 key)
  show ?case by simp
next
  case (2 key x xs)
  then show ?case by auto
qed

lemma ddf_filter:
  "drop_duplicates_first key (filter (\<lambda>y. key y \<noteq> k) xs)
   = filter (\<lambda>y. key y \<noteq> k) (drop_duplicates_first key xs)"
proof (induction key xs rule: drop_duplicates_first.induct)
  case (1 key)
  show ?case by simp
next
  case (2 key x xs)
  show ?case
  proof (cases "key x = k")
    case True
    let ?ys = "filter (\<lambda>y. key y \<noteq> k) xs"
    have "k \<notin> key ` set (drop_duplicates_first key ?ys)"
      by (auto simp: ddf_keys)
    then have "filter (\<lambda>y. key y \<noteq> k) (drop_duplicates_first key ?ys)
        = drop_duplicates_first key ?ys"
      by (auto simp: filter_id_conv)
    then show ?thesis using True by simp
  next
    case False
    have comm: "filter (\<lambda>y. key y \<noteq> key x) (filter (\<lambda>y. key y \<noteq> k) xs)
        = filter (\<lambda>y. key y \<noteq> k) (filter (\<lambda>y. key y \<noteq> key x) xs)"
      by (auto intro: filter_cong)
    have "drop_duplicates_first key (filter (\<lambda>y. key y \<noteq> k) (x # xs))
        = x # drop_duplicates_first key
                (filter (\<lambda>y. key y \<noteq> key x) (filter (\<lambda>y. key y \<noteq> k) xs))"
      using False by simp
    also have "\<dots> = x # filter (\<lambda>y. key y \<noteq> k)
                (drop_duplicates_first key (filter (\<lambda>y. key y \<noteq> key x) xs))"
      unfolding comm using 2 by simp
    also have "\<dots> = filter (\<lambda>y. key y \<noteq> k) (drop_duplicates_first key (x # xs))"
      using False by simp
    finally show ?thesis .
  qed
qed

lemma ddf_append:
  "drop_duplicates_first key (xs @ ys)
   = drop_duplicates_first key xs
     @ drop_duplicates_first key (filter (\<lambda>y. key y \<notin> key ` set xs) ys)"
proof (induction key xs arbitrary: ys rule: drop_duplicates_first.induct)
  case (1 key)
  show ?case by simp
next
  case (2 key x xs)
  have "filter (\<lambda>y. key y \<notin> key ` set (filter (\<lambda>y. key y \<noteq> key x) xs))
          (filter (\<lambda>y. key y \<noteq> key x) ys)
      = filter (\<lambda>y. key y \<notin> key ` set (x # xs)) ys"
    by (auto intro: filter_cong)
  then show ?case using 2[of "filter (\<lambda>y. key y \<noteq> key x) ys"] by simp
qed

lemma ddf_distinct: "distinct (map key (drop_duplicates_first key xs))"
proof (induction key xs rule: drop_duplicates_first.induct)
  case (1 key)
  show ?case by simp
next
  case (2 key x xs)
  have "key x \<notin> key ` set (drop_duplicates_first key (filter (\<lambda>y. key y \<noteq> key x) xs))"
    by (auto simp: ddf_keys)
  then show ?case using 2 by simp
qed

lemma ddf_id: "distinct (map key xs) \<Longrightarrow> drop_duplicates_first key xs = xs"
proof (induction key xs rule: drop_duplicates_first.induct)
  case (1 key)
  show ?case by simp
next
  case (2 key x xs)
  have f: "filter (\<lambda>y. key y \<noteq> key x) xs = xs"
  proof -
    have "key x \<notin> key ` set xs" using 2(2) by simp
    then have "\<forall>y\<in>set xs. key y \<noteq> key x" by (metis image_eqI)
    then show ?thesis by (simp add: filter_id_conv)
  qed
  then show ?case using 2 by simp
qed

lemma ddf_merge_twice:
  "drop_duplicates_first key (drop_duplicates_first key (xs @ ys) @ ys)
   = drop_duplicates_first key (xs @ ys)"
proof -
  have "filter (\<lambda>y. key y \<notin> key ` set (drop_duplicates_first key (xs @ ys))) ys = []"
    by (auto simp: ddf_keys filter_empty_conv)
  then show ?thesis
    by (simp add: ddf_append[of key "drop_duplicates_first key (xs @ ys)" ys] ddf_id ddf_distinct)
qed

lemma ddf_find:
  "find (\<lambda>r. key r = k) (drop_duplicates_first key xs) = find (\<lambda>r. key r = k) xs"
proof (induction key xs rule: drop_duplicates_first.induct)
  case (1 key)
  show ?case by simp
next
  case (2 key x xs)
  have "find (\<lambda>r. key r = k) (filter (\<lambda>y. key y \<noteq> key x) xs) = find (\<lambda>r. key r = k) xs"
    if "key x \<noteq> k"
    using that by (induction xs) auto
  then show ?case using 2 by (simp add: ddf_filter)
qed

text \<open>
  Merging the same results once more into the snapshot the first merge wrote changes
  nothing, and of the rows of an id the merge keeps the first.
\<close>

lemma merge_predictions_twice:
  assumes "merge_predictions (Frame existing) pred_df = Inr (csv, line)"
  shows "merge_predictions csv pred_df = Inr (csv, line)"
proof (cases "pred_df = []")
  case True
  then show ?thesis using assms by (simp add: merge_predictions_def)
next
  case False
  then have csv: "csv = Frame (drop_duplicates_first lr_id (existing @ pred_df))"
    and line: "line = Saved (length (drop_duplicates_first lr_id (existing @ pred_df)))"
    using assms by (auto simp: merge_predictions_def Let_def)
  show ?thesis
    using False by (simp add: csv line merge_predictions_def Let_def ddf_merge_twice)
qed

lemma merge_predictions_first_wins:
  assumes "merge_predictions (Frame existing) pred_df = Inr (Frame combined, line)"
    and "pred_df \<noteq> []"
  shows "find (\<lambda>r. lr_id r = k) combined = find (\<lambda>r. lr_id r = k) (existing @ pred_df)"
  using assms by (auto simp: merge_predictions_def Let_def ddf_find)

section \<open>clean_text\<close>

lemma clean_column_other:
  "q \<noteq> r \<Longrightarrow> frames (clean_column c r h) q = frames h q"
  by (simp add: clean_column_def setitem_def split: option.splits)

lemma clean_column_next: "next_ref (clean_column c r h) = next_ref h"
  by (simp add: clean_column_def setitem_def split: option.splits)

lemma clean_column_columns:
  "columns (frames (clean_column c r h) r) = columns (frames h r)"
proof (cases "map_of (frames h r) c")
  case None
  then show ?thesis by (simp add: clean_column_def)
next
  case (Some vs)
  then have "c \<in> fst ` set (frames h r)" by (metis map_of_eq_None_iff option.distinct(1))
  then show ?thesis
    using Some by (simp add: clean_column_def setitem_def columns_def update_keys)
qed

lemma clean_column_map_of:
  "c' \<noteq> c \<Longrightarrow> map_of (frames (clean_column c r h) r) c' = map_of (frames h r) c'"
  by (simp add: clean_column_def setitem_def update_conv' split: option.splits)

text \<open>
  Claim C10.  \<open>clean_text\<close> works on a copy: the frame passed in, like every frame that
  existed before the call, is unchanged, and the frame returned is a new object.  The
  returned frame has the columns of the input, in the same order (so a column absent from
  the input stays absent), and every column other than \<open>Service Comments\<close>, \<open>Priority\<close>
  and \<open>Service Category\<close> holds the values it held in the input.
\<close>

theorem clean_text_frame:
  assumes "df < next_ref h"
  shows "case clean_text df h of (r, h') \<Rightarrow>
           frames h' df = frames h df
         \<and> (\<forall>q. q < next_ref h \<longrightarrow> frames h' q = frames h q)
         \<and> r \<noteq> df
         \<and> columns (frames h' r) = columns (frames h df)
         \<and> (\<forall>c. c \<notin> {''Service Comments'', ''Priority'', ''Service Category''}
                \<longrightarrow> map_of (frames h' r) c = map_of (frames h df) c)"
proof -
  let ?r = "next_ref h"
  let ?h1 = "h\<lparr>next_ref := Suc ?r, frames := (frames h)(?r := frames h df)\<rparr>"
  let ?h2 = "clean_column ''Service Comments'' ?r ?h1"
  let ?h3 = "clean_column ''Priority'' ?r ?h2"
  let ?h4 = "clean_column ''Service Category'' ?r ?h3"
  have run: "clean_text df h = (?r, ?h4)"
    by (simp add: clean_text_def df_copy_def alloc_def Let_def)
  have old: "frames ?h4 q = frames h q" if "q < ?r" for q
    using that by (simp add: clean_column_other)
  have cols: "columns (frames ?h4 ?r) = columns (frames h df)"
    by (simp add: clean_column_columns)
  have other: "map_of (frames ?h4 ?r) c = map_of (frames h df) c"
    if "c \<notin> {''Service Comments'', ''Priority'', ''Service Category''}" for c
  proof -
    have "c \<noteq> ''Service Comments''" "c \<noteq> ''Priority''" "c \<noteq> ''Service Category''"
      using that by auto
    then show ?thesis by (simp add: clean_column_map_of)
  qed
  show ?thesis
    unfolding run using assms old cols other by simp
qed

theorem clean_text_frame_witness:
  "(0::nat) < next_ref \<lparr>next_ref = 1, frames = (\<lambda>r. [(''id'', [Num 1, Num 2]), (''Priority'', [Str '' High'', NaN])])\<rparr>
   \<and> fst (clean_text 0 \<lparr>next_ref = 1, frames = (\<lambda>r. [(''id'', [Num 1, Num 2]), (''Priority'', [Str '' High'', NaN])])\<rparr>) \<noteq> 0
   \<and> frames (snd (clean_text 0 \<lparr>next_ref = 1, frames = (\<lambda>r. [(''id'', [Num 1, Num 2]), (''Priority'', [Str '' High'', NaN])])\<rparr>)) 0
       = [(''id'', [Num 1, Num 2]), (''Priority'', [Str '' High'', NaN])]
   \<and> map_of (frames (snd (clean_text 0 \<lparr>next_ref = 1, frames = (\<lambda>r. [(''id'', [Num 1, Num 2]), (''Priority'', [Str '' High'', NaN])])\<rparr>))
               (fst (clean_text 0 \<lparr>next_ref = 1, frames = (\<lambda>r. [(''id'', [Num 1, Num 2]), (''Priority'', [Str '' High'', NaN])])\<rparr>))) ''id''
       = Some [Num 1, Num 2]"
proof -
  let ?h = "\<lparr>next_ref = 1, frames = (\<lambda>r. [(''id'', [Num 1, Num 2]), (''Priority'', [Str '' High'', NaN])])\<rparr>"
  have v: "(0::nat) < next_ref ?h" by simp
  have "''id'' \<notin> {''Service Comments'', ''Priority'', ''Service Category''}" by simp
  with clean_text_frame[OF v] v show ?thesis
    by (auto simp: split_beta)
qed

text \<open>On the same frame, the copy has its \<open>Priority\<close> column filled and stripped.\<close>

lemma clean_text_example:
  "frames (snd (clean_text 0 \<lparr>next_ref = 1, frames = (\<lambda>r. [(''id'', [Num 1, Num 2]), (''Priority'', [Str '' High'', NaN])])\<rparr>)) 1
   = [(''id'', [Num 1, Num 2]), (''Priority'', [Str ''High'', Str []])]"
  by (simp add: clean_text_def df_copy_def alloc_def clean_column_def setitem_def normalize_text_def
      str_strip_def astype_str_def fillna_def py_str_def strip_def is_space_def)

section \<open>The labelling run\<close>

lemma nrows_filter_none:
  assumes "\<forall>b\<in>set keep. \<not> b"
  shows "nrows (filter_rows keep df) = 0"
proof -
  have "filter fst (zip keep vs) = []" for vs :: "cell list"
    using assms by (auto simp: filter_empty_conv dest: set_zip_leftD)
  then show ?thesis
    by (cases df) (auto simp: nrows_def filter_rows_def)
qed

lemma plan_nothing_pending:
  assumes "load_source w = Inr s"
    and "set (src_ids s) \<subseteq> read_done_ids (pred_csv w)"
  shows "plan_run batch_size w = Inr NothingToDo"
proof -
  have "\<forall>b\<in>set (map (\<lambda>i. i \<notin> read_done_ids (pred_csv w)) (src_ids s)). \<not> b"
    using assms(2) by auto
  then have "nrows (filter_rows (map (\<lambda>i. i \<notin> read_done_ids (pred_csv w)) (src_ids s)) (src_df s)) = 0"
    by (rule nrows_filter_none)
  then show ?thesis
    using assms(1) by (simp add: plan_run_def bind_err_def Let_def)
qed

text \<open>
  Claim C7.  When the source loads and every id of the source is in the snapshot, the run
  sends no request, ends without an exception after printing that nothing is left to do,
  and leaves the snapshot and the append log as they were.  This holds for every state
  of the ledger files, so also for the one a completed earlier run has written.
\<close>

theorem main_nothing_pending:
  assumes "load_source w = Inr s"
    and "set (src_ids s) \<subseteq> read_done_ids (pred_csv w)"
  shows "main_with conv cap batch_size client w =
           \<lparr>run_error = None, run_printed = [AlreadyAllIds], run_calls = 0,
            run_pred_csv = pred_csv w, run_pred_jsonl = pred_jsonl w\<rparr>"
  using plan_nothing_pending[OF assms] by (simp add: main_with_def)

text \<open>
  The second of two runs: when the snapshot the first run has written holds every id of
  the source, a run on the files the first run left behind sends no request and leaves
  them as they are, whatever the classifier would answer.
\<close>

lemma main_second_run:
  assumes "load_source w = Inr s"
    and "first = main_with conv cap batch_size client w"
    and "set (src_ids s) \<subseteq> read_done_ids (run_pred_csv first)"
  shows "main_with conv' cap' batch_size' client'
           (w\<lparr>pred_csv := run_pred_csv first, pred_jsonl := run_pred_jsonl first\<rparr>) =
           \<lparr>run_error = None, run_printed = [AlreadyAllIds], run_calls = 0,
            run_pred_csv = run_pred_csv first, run_pred_jsonl = run_pred_jsonl first\<rparr>"
proof -
  let ?w = "w\<lparr>pred_csv := run_pred_csv first, pred_jsonl := run_pred_jsonl first\<rparr>"
  have "load_source ?w = load_source w"
    by (simp add: load_source_def cong: option.case_cong if_cong)
  then have "load_source ?w = Inr s" using assms(1) by simp
  moreover have "set (src_ids s) \<subseteq> read_done_ids (pred_csv ?w)" using assms(3) by simp
  ultimately have "plan_run batch_size' ?w = Inr NothingToDo" by (rule plan_nothing_pending)
  then show ?thesis by (simp add: main_with_def)
qed

lemmas eval_defs = load_source_def alloc_def clean_text_def df_copy_def clean_column_def
      setitem_def getitem_def bind_err_def astype_int_def example_source_def

lemma labelled_world_source:
  "\<exists>s. load_source labelled_world = Inr s \<and> src_ids s = [1, 2, 3]"
  by (simp add: labelled_world_def eval_defs)

theorem main_nothing_pending_witness:
  "(\<exists>s. load_source labelled_world = Inr s \<and> set (src_ids s) \<subseteq> read_done_ids (pred_csv labelled_world))
   \<and> main_with no_string_ids 20 50 example_client labelled_world =
       \<lparr>run_error = None, run_printed = [AlreadyAllIds], run_calls = 0,
        run_pred_csv = pred_csv labelled_world, run_pred_jsonl = pred_jsonl labelled_world\<rparr>"
proof -
  obtain s where s: "load_source labelled_world = Inr s" "src_ids s = [1, 2, 3]"
    using labelled_world_source by blast
  have sub: "set (src_ids s) \<subseteq> read_done_ids (pred_csv labelled_world)"
    by (simp add: s labelled_world_def read_done_ids_def example_result_def)
  from main_nothing_pending[OF s(1) sub] s(1) sub show ?thesis by blast
qed

lemma label_loop_ok:
  assumes inv: "issued st = calls_made st"
    and ok: "\<forall>i<length batches. calls_made st + i < cap \<longrightarrow>
               label_one_batch conv (client (calls_made st + i)) (batches ! i)
                 (src_schema s) (src_instruction s) = Inr (out (calls_made st + i))"
    and n: "n = min (length batches) (cap - calls_made st)"
  shows "label_loop conv cap client s batches st =
           (None, st\<lparr>calls_made := calls_made st + n,
                      issued := calls_made st + n,
                      jsonl := jsonl st @ concat (map (\<lambda>i. results (out i))
                          [calls_made st ..< calls_made st + n]),
                      all_records := all_records st @ concat (map (\<lambda>i. results (out i))
                          [calls_made st ..< calls_made st + n]),
                      waited := waited st + n * RPM_SLEEP_SECONDS,
                      printed := printed st @ (if n < length batches then [ReachedCap cap] else [])\<rparr>)"
  using assms
proof (induction batches arbitrary: st n)
  case Nil
  then show ?case by simp
next
  case (Cons b rest)
  let ?c = "calls_made st"
  show ?case
  proof (cases "cap \<le> ?c")
    case True
    then have "n = 0" using Cons.prems(3) by simp
    then show ?thesis using True Cons.prems(1) by (simp add: loop_body_def)
  next
    case False
    then have lt: "?c < cap" by simp
    have call: "label_one_batch conv (client ?c) b (src_schema s) (src_instruction s) = Inr (out ?c)"
      using Cons.prems(2) lt by force
    let ?st1 = "st\<lparr>issued := Suc (issued st),
                     jsonl := append_jsonl (jsonl st) (results (out ?c)),
                     all_records := all_records st @ results (out ?c),
                     calls_made := Suc ?c,
                     waited := waited st + RPM_SLEEP_SECONDS\<rparr>"
    define n' where "n' = min (length rest) (cap - Suc ?c)"
    have body: "loop_body conv cap client s b st = Continue ?st1"
      using False call Cons.prems(1) by (simp add: loop_body_def)
    have inv1: "issued ?st1 = calls_made ?st1" using Cons.prems(1) by simp
    have ok1: "\<forall>i<length rest. calls_made ?st1 + i < cap \<longrightarrow>
               label_one_batch conv (client (calls_made ?st1 + i)) (rest ! i)
                 (src_schema s) (src_instruction s) = Inr (out (calls_made ?st1 + i))"
    proof (intro allI impI)
      fix i assume i: "i < length rest" "calls_made ?st1 + i < cap"
      then have "Suc i < length (b # rest)" "?c + Suc i < cap" by simp_all
      with Cons.prems(2) have "label_one_batch conv (client (?c + Suc i)) ((b # rest) ! Suc i)
                 (src_schema s) (src_instruction s) = Inr (out (?c + Suc i))" by blast
      then show "label_one_batch conv (client (calls_made ?st1 + i)) (rest ! i)
                 (src_schema s) (src_instruction s) = Inr (out (calls_made ?st1 + i))" by simp
    qed
    have n1: "n' = min (length rest) (cap - calls_made ?st1)" by (simp add: n'_def)
    have m: "n = Suc n'"
      using lt Cons.prems(3) unfolding n'_def
      by (cases "length rest \<le> cap - Suc ?c") simp_all
    have u: "[?c ..< Suc (?c + k)] = ?c # [Suc ?c ..< Suc (?c + k)]" for k
      by (simp add: upt_conv_Cons)
    show ?thesis
      using Cons.IH[OF inv1 ok1 n1] body
      by (simp add: m u append_jsonl_def del: upt_Suc)
  qed
qed


lemma label_states_nonempty: "label_states conv cap client s batches st \<noteq> []"
  by (cases batches) (auto split: flow.splits)

lemma label_states_last:
  "last (label_states conv cap client s batches st) = snd (label_loop conv cap client s batches st)"
  by (induction batches arbitrary: st) (auto simp: label_states_nonempty split: flow.splits)

lemma merge_predictions_ok:
  assumes "csv \<noteq> Corrupt"
  shows "\<exists>csv' line. merge_predictions csv recs = Inr (csv', line) \<and> line \<noteq> ReachedCap cap"
  using assms by (cases csv; cases "recs = []") (simp_all add: merge_predictions_def Let_def)


text \<open>
  A run whose batches fit under the cap goes through all of them and never prints the
  line of the reached cap: that line tells a run stopped by the cap from a completed one.
\<close>

lemma main_completes_below_cap:
  assumes "plan_run batch_size w = Inr (Batches s batches)"
    and "length batches \<le> cap"
    and "\<forall>i<length batches. label_one_batch conv (client i) (batches ! i) (src_schema s) (src_instruction s)
                  = Inr (out i)"
    and "pred_csv w \<noteq> Corrupt"
  shows "run_calls (main_with conv cap batch_size client w) = length batches
       \<and> run_error (main_with conv cap batch_size client w) = None
       \<and> ReachedCap cap \<notin> set (run_printed (main_with conv cap batch_size client w))"
proof -
  let ?recs = "concat (map (\<lambda>i. results (out i)) [0..<length batches])"
  let ?st0 = "loop_start w"
  have inv: "issued ?st0 = calls_made ?st0" by (simp add: loop_start_def)
  have ok: "\<forall>i<length batches. calls_made ?st0 + i < cap \<longrightarrow>
               label_one_batch conv (client (calls_made ?st0 + i)) (batches ! i)
                 (src_schema s) (src_instruction s) = Inr (out (calls_made ?st0 + i))"
    using assms(3) by (simp add: loop_start_def)
  have m: "min (length batches) cap = length batches" using assms(2) by simp
  have loop: "label_loop conv cap client s batches ?st0 =
           (None, \<lparr>calls_made = length batches, all_records = ?recs, jsonl = pred_jsonl w @ ?recs,
                   printed = [], issued = length batches,
                   waited = length batches * RPM_SLEEP_SECONDS\<rparr>)"
    using label_loop_ok[OF inv ok, of "length batches"] assms(2) by (simp add: loop_start_def)
  obtain csv line where merge: "merge_predictions (pred_csv w) ?recs = Inr (csv, line)"
    and line: "line \<noteq> ReachedCap cap"
    using merge_predictions_ok[OF assms(4)] by blast
  show ?thesis
    using assms(1) loop merge line by (simp add: main_with_def)
qed




section \<open>The priority quotas of the curator\<close>

lemma sum_fun_upd:
  fixes t :: "'a \<Rightarrow> int"
  assumes "finite S" "p \<in> S"
  shows "sum (t(p := v)) S = sum t S + (v - t p)"
proof -
  have a: "sum (t(p := v)) S = (t(p := v)) p + sum (t(p := v)) (S - {p})"
    using assms by (rule sum.remove)
  have b: "sum (t(p := v)) (S - {p}) = sum t (S - {p})"
    by (rule sum.cong) auto
  have c: "sum t S = t p + sum t (S - {p})"
    using assms by (rule sum.remove)
  show ?thesis using a b c by simp
qed

lemma split_sum_upt:
  assumes "0 \<le> r"
  shows "sum_list (map (\<lambda>i. b + (if int i < r then 1 else 0)) [0..<k]) = int k * b + min (int k) r"
  using assms by (induction k) (auto simp: algebra_simps min_def)

lemma near_equal_split_map:
  assumes "distinct ps"
  shows "map (near_equal_split n ps) ps
     = map (\<lambda>i. n div int (length ps) + (if int i < n mod int (length ps) then 1 else 0))
         [0..<length ps]"
proof (rule nth_equalityI)
  show "length (map (near_equal_split n ps) ps) = length (map (\<lambda>i. n div int (length ps) + (if int i < n mod int (length ps) then 1 else 0)) [0..<length ps])"
    by simp
next
  fix i assume "i < length (map (near_equal_split n ps) ps)"
  then have i: "i < length ps" by simp
  have "map_of (zip ps [0..<length ps]) (ps ! i) = Some ([0..<length ps] ! i)"
    using assms i by (intro map_of_zip_nth) simp_all
  then show "map (near_equal_split n ps) ps ! i
      = map (\<lambda>i. n div int (length ps) + (if int i < n mod int (length ps) then 1 else 0)) [0..<length ps] ! i"
    using i by (simp add: near_equal_split_def)
qed

lemma near_equal_split_sum:
  assumes "distinct ps" "ps \<noteq> []"
  shows "sum (near_equal_split n ps) (set ps) = n"
proof -
  let ?k = "int (length ps)"
  have k: "0 < ?k" using assms(2) by simp
  have r: "0 \<le> n mod ?k" "n mod ?k < ?k" using k by simp_all
  have "sum (near_equal_split n ps) (set ps) = sum_list (map (near_equal_split n ps) ps)"
    using assms(1) by (simp add: sum_list_distinct_conv_sum_set)
  also have "\<dots> = ?k * (n div ?k) + min ?k (n mod ?k)"
    unfolding near_equal_split_map[OF assms(1)] using r(1) by (rule split_sum_upt)
  also have "min ?k (n mod ?k) = n mod ?k" using r(2) by simp
  finally show ?thesis by simp
qed

lemma value_counts_sum:
  assumes "set labels \<subseteq> S" "finite S"
  shows "sum (value_counts labels) S = int (length labels)"
proof -
  have "sum (value_counts labels) S = int (sum (count_list labels) S)"
    by (simp add: value_counts_def)
  also have "sum (count_list labels) S = length labels"
    using assms by (rule sum_count_set)
  finally show ?thesis .
qed

lemma cap_targets_sum:
  assumes "finite S" "set ps \<subseteq> S" "cap_targets counts ps (t, d) = (t', d')"
  shows "sum t' S + d' = sum t S + d \<and> d \<le> d'
       \<and> (\<forall>p. t' p \<le> counts p \<or> (t' p = t p \<and> p \<notin> set ps))
       \<and> (\<forall>p. t p \<le> counts p \<longrightarrow> t' p = t p)"
  using assms(2,3)
proof (induction ps arbitrary: t d)
  case Nil
  then show ?case by simp
next
  case (Cons p ps)
  have pS: "p \<in> S" "set ps \<subseteq> S" using Cons.prems(1) by simp_all
  show ?case
  proof (cases "t p > counts p")
    case True
    let ?t = "t(p := counts p)"
    from Cons.prems(2) True
    have run: "cap_targets counts ps (?t, d + (t p - counts p)) = (t', d')" by simp
    note ih = Cons.IH[OF pS(2) run]
    have s: "sum ?t S = sum t S + (counts p - t p)"
      using assms(1) pS(1) by (rule sum_fun_upd)
    have a: "sum t' S + d' = sum t S + d" using ih s by simp
    have b: "d \<le> d'" using ih True by simp
    have c: "\<forall>q. t' q \<le> counts q \<or> (t' q = t q \<and> q \<notin> set (p # ps))"
    proof
      fix q
      from ih have "t' q \<le> counts q \<or> (t' q = ?t q \<and> q \<notin> set ps)" by blast
      then show "t' q \<le> counts q \<or> (t' q = t q \<and> q \<notin> set (p # ps))"
        by (cases "q = p") auto
    qed
    have e: "\<forall>q. t q \<le> counts q \<longrightarrow> t' q = t q"
    proof (intro allI impI)
      fix q assume q: "t q \<le> counts q"
      then have "q \<noteq> p" using True by auto
      then have "?t q \<le> counts q" "?t q = t q" using q by simp_all
      with ih show "t' q = t q" by metis
    qed
    show ?thesis using a b c e by blast
  next
    case False
    with Cons.prems(2) have run: "cap_targets counts ps (t, d) = (t', d')" by simp
    note ih = Cons.IH[OF pS(2) run]
    have c: "\<forall>q. t' q \<le> counts q \<or> (t' q = t q \<and> q \<notin> set (p # ps))"
    proof
      fix q
      from ih have "t' q \<le> counts q \<or> (t' q = t q \<and> q \<notin> set ps)" by blast
      moreover have "t' p \<le> counts p" using ih False by (metis not_less)
      ultimately show "t' q \<le> counts q \<or> (t' q = t q \<and> q \<notin> set (p # ps))"
        by (cases "q = p") auto
    qed
    show ?thesis using ih c by blast
  qed
qed

lemma reassign_pass_progress_kept:
  "reassign_pass counts ps (t, d, True) = (t', d', g') \<Longrightarrow> g'"
  by (induction ps arbitrary: t d) (auto split: if_splits)

lemma reassign_pass_inv:
  assumes "finite S" "set ps \<subseteq> S" "quota_inv S counts amount t d" "0 < d"
    and "reassign_pass counts ps (t, d, g) = (t', d', g')"
  shows "quota_inv S counts amount t' d' \<and> 0 \<le> d'
       \<and> (\<not> g' \<longrightarrow> t' = t \<and> d' = d \<and> (\<forall>p\<in>set ps. counts p \<le> t p))"
  using assms(2-5)
proof (induction ps arbitrary: t d g)
  case Nil
  then show ?case by simp
next
  case (Cons p ps)
  have pS: "p \<in> S" "set ps \<subseteq> S" using Cons.prems(1) by simp_all
  show ?case
  proof (cases "counts p - t p \<le> 0")
    case True
    with Cons.prems(4) have run: "reassign_pass counts ps (t, d, g) = (t', d', g')" by simp
    from Cons.IH[OF pS(2) Cons.prems(2,3) run] True show ?thesis by auto
  next
    case False
    let ?t = "t(p := t p + 1)"
    have s: "sum ?t S = sum t S + 1"
      using sum_fun_upd[OF assms(1) pS(1), of t "t p + 1"] by simp
    have inv: "quota_inv S counts amount ?t (d - 1)"
      using Cons.prems(2) False s by (auto simp: quota_inv_def)
    show ?thesis
    proof (cases "d - 1 = 0")
      case True
      with Cons.prems(4) False have e: "t' = ?t" "d' = d - 1" "g'" by simp_all
      have q: "quota_inv S counts amount t' d'" unfolding e by (rule inv)
      have "0 \<le> d'" using e(2) True by simp
      then show ?thesis using q e(3) by blast
    next
      case nz: False
      with Cons.prems(4) False
      have run: "reassign_pass counts ps (?t, d - 1, True) = (t', d', g')" by simp
      have pos: "0 < d - 1" using nz Cons.prems(3) by simp
      have g': "g'" using run by (rule reassign_pass_progress_kept)
      from Cons.IH[OF pS(2) inv pos run] g' show ?thesis by simp
    qed
  qed
qed


lemma reassign_inv:
  "finite S \<Longrightarrow> set priorities = S \<Longrightarrow> amount \<le> sum counts S \<Longrightarrow>
   quota_inv S counts amount t d \<Longrightarrow> 0 \<le> d \<Longrightarrow>
   reassign counts priorities (t, d) = (t', d') \<Longrightarrow>
   quota_inv S counts amount t' d' \<and> d' = 0"
proof (induction counts priorities "(t, d)" arbitrary: t d rule: reassign.induct)
  case (1 counts priorities t d)
  note fin = "1.prems"(1) and dom = "1.prems"(2) and le = "1.prems"(3)
    and inv = "1.prems"(4) and nonneg = "1.prems"(5) and run0 = "1.prems"(6)
  show ?case
  proof (cases "0 < d")
    case False
    then show ?thesis using inv nonneg run0 by simp
  next
    case True
    let ?order = "sort_key (\<lambda>x. (t x, x)) priorities"
    obtain t1 d1 g1 where pass: "reassign_pass counts ?order (t, d, False) = (t1, d1, g1)"
      by (metis prod_cases3)
    have sub: "set ?order \<subseteq> S" using dom by auto
    note inv1 = reassign_pass_inv[OF fin sub inv True pass]
    show ?thesis
    proof (cases g1)
      case False
      then have same: "t1 = t" "d1 = d" and full: "\<forall>p\<in>S. counts p \<le> t p"
        using inv1 dom by auto
      have "\<forall>p\<in>S. t p = counts p"
        using full inv by (auto simp: quota_inv_def intro: antisym)
      then have "sum t S = sum counts S" by (intro sum.cong) simp_all
      then have "d \<le> 0" using inv le by (simp add: quota_inv_def)
      then show ?thesis using True by simp
    next
      case g: True
      have run: "reassign counts priorities (t1, d1) = (t', d')"
        using run0 True pass g by simp
      have "quota_inv S counts amount t1 d1" "0 \<le> d1" using inv1 by simp_all
      then show ?thesis
        using "1.hyps"[of t1 "(d1, g1)" d1 g1] True pass g fin dom le run by auto
    qed
  qed
qed


lemma targets_from_counts_quotas:
  assumes "distinct priorities" "amount = sum counts (set priorities)"
    and "priorities \<noteq> [] \<or> 0 \<le> n"
  shows "map fst (targets_from_counts counts priorities n) = priorities
       \<and> (\<forall>p q. (p, q) \<in> set (targets_from_counts counts priorities n) \<longrightarrow> q \<le> counts p)
       \<and> sum_list (map snd (targets_from_counts counts priorities n)) = min n amount"
proof (cases "priorities = []")
  case True
  then show ?thesis using assms by (simp add: targets_from_counts_def)
next
  case False
  let ?S = "set priorities"
  let ?n = "min n (sum_list (map counts priorities))"
  have fin: "finite ?S" by simp
  have tot: "sum_list (map counts priorities) = amount"
    using assms(1,2) by (simp add: sum_list_distinct_conv_sum_set)
  obtain t1 d1 where cap: "cap_targets counts priorities (near_equal_split ?n priorities, 0) = (t1, d1)"
    by (metis surj_pair)
  obtain t2 d2 where re: "reassign counts priorities (t1, d1) = (t2, d2)"
    by (metis surj_pair)
  have run: "targets_from_counts counts priorities n = map (\<lambda>p. (p, t2 p)) priorities"
    using False cap re by (simp add: targets_from_counts_def Let_def)
  note c = cap_targets_sum[OF fin subset_refl cap]
  have s0: "sum (near_equal_split ?n priorities) ?S = ?n"
    using assms(1) False by (rule near_equal_split_sum)
  have inv1: "quota_inv ?S counts ?n t1 d1"
    using c s0 by (auto simp: quota_inv_def)
  have d1: "0 \<le> d1" using c by simp
  have le: "?n \<le> sum counts ?S" using tot assms(2) by simp
  have inv2: "quota_inv ?S counts ?n t2 d2 \<and> d2 = 0"
    using fin refl le inv1 d1 re by (rule reassign_inv)
  have a: "map fst (targets_from_counts counts priorities n) = priorities"
    unfolding run by (simp add: comp_def)
  have b: "\<forall>p q. (p, q) \<in> set (targets_from_counts counts priorities n) \<longrightarrow> q \<le> counts p"
    unfolding run using inv2 by (auto simp: quota_inv_def)
  have "sum_list (map snd (targets_from_counts counts priorities n)) = sum_list (map t2 priorities)"
    unfolding run by (simp add: comp_def)
  also have "\<dots> = sum t2 ?S" using assms(1) by (simp add: sum_list_distinct_conv_sum_set)
  also have "\<dots> = ?n" using inv2 by (simp add: quota_inv_def)
  finally have e: "sum_list (map snd (targets_from_counts counts priorities n)) = min n amount"
    using tot by simp
  show ?thesis using a b e by blast
qed

lemma targets_from_counts_uncapped:
  assumes "distinct priorities" "priorities \<noteq> []"
    and "n \<le> sum counts (set priorities)"
    and "\<forall>p\<in>set priorities. near_equal_split n priorities p \<le> counts p"
  shows "targets_from_counts counts priorities n
           = map (\<lambda>p. (p, near_equal_split n priorities p)) priorities"
proof -
  let ?S = "set priorities"
  have fin: "finite ?S" by simp
  have n: "min n (sum_list (map counts priorities)) = n"
    using assms(1,3) by (simp add: sum_list_distinct_conv_sum_set)
  obtain t1 d1 where cap: "cap_targets counts priorities (near_equal_split n priorities, 0) = (t1, d1)"
    by (metis surj_pair)
  note c = cap_targets_sum[OF fin subset_refl cap]
  have same: "\<forall>p\<in>?S. t1 p = near_equal_split n priorities p"
    using c assms(4) by blast
  then have "sum t1 ?S = sum (near_equal_split n priorities) ?S"
    by (intro sum.cong) simp_all
  then have d1: "d1 = 0" using c by simp
  have re: "reassign counts priorities (t1, d1) = (t1, d1)" using d1 by simp
  have "targets_from_counts counts priorities n = map (\<lambda>p. (p, t1 p)) priorities"
    using assms(2) cap re by (simp add: targets_from_counts_def Let_def n)
  also have "\<dots> = map (\<lambda>p. (p, near_equal_split n priorities p)) priorities"
    using same by simp
  finally show ?thesis .
qed

text \<open>
  The two examples of the specification: counts \<open>{A: 5, B: 995}\<close> and \<open>{A: 500, B: 500}\<close>
  with 30 requested.
\<close>

lemma spec_example_capped:
  "targets_from_counts (\<lambda>p. if p = ''A'' then 5 else 995) [''A'', ''B''] 30 = [(''A'', 5), (''B'', 25)]"
  by code_simp

lemma spec_example_even:
  "targets_from_counts (\<lambda>p. 500) [''A'', ''B''] 30 = [(''A'', 15), (''B'', 15)]"
  by code_simp


lemma priority_labels_length: "length (priority_labels col) = length col"
  by (simp add: priority_labels_def normalize_text_def str_strip_def astype_str_def fillna_def)

text \<open>
  Claim C6.  For a frame with the priority column and a requested size \<open>n \<ge> 0\<close>, the
  quotas computed have one entry per priority value, in sorted order; each quota is at
  most the number of rows available for its value; the quotas add up to the smaller of
  \<open>n\<close> and the number of rows, so no slot is lost while rows remain.  When \<open>n\<close> is at
  most the number of rows and no value falls short of its share, the quotas are the
  near-equal split itself: \<open>n div k\<close> for each of the \<open>k\<close> values and one more for the
  first \<open>n mod k\<close> of them in sorted order.
\<close>

theorem compute_priority_targets_quotas:
  assumes "getitem df priority_col = Inr col" and "0 \<le> n"
  shows "\<exists>targets.
           compute_priority_targets df n priority_col = Inr targets
         \<and> map fst targets = sort (remdups (priority_labels col))
         \<and> (\<forall>p q. (p, q) \<in> set targets \<longrightarrow> q \<le> value_counts (priority_labels col) p)
         \<and> sum_list (map snd targets) = min n (int (length col))
         \<and> (n \<le> int (length col)
              \<and> (\<forall>p\<in>set (priority_labels col).
                    near_equal_split n (sort (remdups (priority_labels col))) p
                      \<le> value_counts (priority_labels col) p)
              \<longrightarrow> targets = map (\<lambda>p. (p, near_equal_split n (sort (remdups (priority_labels col))) p))
                                (sort (remdups (priority_labels col))))"
proof -
  let ?labels = "priority_labels col"
  let ?counts = "value_counts ?labels"
  let ?P = "sort (remdups ?labels)"
  let ?targets = "targets_from_counts ?counts ?P n"
  have run: "compute_priority_targets df n priority_col = Inr ?targets"
    using assms(1) by (simp add: compute_priority_targets_def column_targets_def bind_err_def Let_def)
  have dist: "distinct ?P" by simp
  have setP: "set ?P = set ?labels" by simp
  have amount: "int (length col) = sum ?counts (set ?P)"
    using value_counts_sum[of ?labels "set ?P"] by (simp add: priority_labels_length)
  have q: "map fst ?targets = ?P
       \<and> (\<forall>p q. (p, q) \<in> set ?targets \<longrightarrow> q \<le> ?counts p)
       \<and> sum_list (map snd ?targets) = min n (int (length col))"
    using dist amount by (rule targets_from_counts_quotas) (simp add: assms(2))
  have u: "?targets = map (\<lambda>p. (p, near_equal_split n ?P p)) ?P"
    if "n \<le> int (length col)"
      and "\<forall>p\<in>set ?labels. near_equal_split n ?P p \<le> ?counts p"
  proof (cases "?P = []")
    case True
    then show ?thesis by (simp add: targets_from_counts_def)
  next
    case False
    show ?thesis
      using dist False
    proof (rule targets_from_counts_uncapped)
      show "n \<le> sum ?counts (set ?P)" using that(1) amount by simp
      show "\<forall>p\<in>set ?P. near_equal_split n ?P p \<le> ?counts p" using that(2) setP by simp
    qed
  qed
  show ?thesis using run q u by blast
qed

lemma example_priorities_targets:
  "compute_priority_targets example_priorities 6 ''resident_selected_priority''
     = Inr [(''High'', 2), (''Low'', 4)]"
  by code_simp

theorem compute_priority_targets_quotas_witness:
  "getitem example_priorities ''resident_selected_priority''
     = Inr [Str ''High'', Str ''Low'', Str ''Low '', Str ''High'', Str ''Low'', Str ''Low'', Str ''Low'']
   \<and> (0::int) \<le> 6
   \<and> compute_priority_targets example_priorities 6 ''resident_selected_priority''
       = Inr [(''High'', 2), (''Low'', 4)]
   \<and> sum_list (map snd [(''High'', 2::int), (''Low'', 4)]) = min 6 (int (length
         [Str ''High'', Str ''Low'', Str ''Low '', Str ''High'', Str ''Low'', Str ''Low'', Str ''Low'']))"
proof -
  have col: "getitem example_priorities ''resident_selected_priority''
     = Inr [Str ''High'', Str ''Low'', Str ''Low '', Str ''High'', Str ''Low'', Str ''Low'', Str ''Low'']"
    by (simp add: getitem_def example_priorities_def)
  have n: "(0::int) \<le> 6" by simp
  from compute_priority_targets_quotas[OF col n] example_priorities_targets col
  show ?thesis by auto
qed

end
